theory Spec2Isabelle
  imports Main "HOL-Library.Word" "HOL-Library.Sublist"
begin

unbundle bit_operations_syntax

section \<open>Data model of package password\<close>

text \<open>
  A Go \<^verbatim>\<open>string\<close> is a sequence of bytes; \<^verbatim>\<open>len(s)\<close> counts bytes and \<^verbatim>\<open>s[i]\<close>
  is a byte. HOL's \<^typ>\<open>string\<close> is a list of 8-bit characters, so it is used as it is.
\<close>

subsection \<open>The built-in alphabets (generate.go, lines 34 to 46)\<close>

definition LowerLetters :: string where
  "LowerLetters = ''abcdefghijklmnopqrstuvwxyz''"

definition UpperLetters :: string where
  "UpperLetters = ''ABCDEFGHIJKLMNOPQRSTUVWXYZ''"

definition Digits :: string where
  "Digits = ''0123456789''"

text \<open>
  The Go literal is \<^verbatim>\<open>"~!@#$%^&*()_+`-={}|[]\\:\"<>?,./"\<close>: the backquote (0x60), the
  escaped backslash (0x5C) and the escaped double quote (0x22) are written by their codes.
\<close>

definition Symbols :: string where
  "Symbols = ''~!@#$%^&*()_+'' @ [CHR 0x60] @ ''-={}|[]'' @ [CHR 0x5C] @ '':'' @ [CHR 0x22]
     @ ''<>?,./''"

subsection \<open>Errors\<close>

text \<open>
  The four exported error values, the error of a failed read of the random source, and
  \<open>Panic\<close> for a call that does not return because the Go runtime panics
  (\<^verbatim>\<open>rand.Int\<close> with \<^verbatim>\<open>max <= 0\<close>, an index or a slice bound out of range).
\<close>

datatype error =
    ErrExceedsTotalLength
  | ErrLettersExceedsAvailable
  | ErrDigitsExceedsAvailable
  | ErrSymbolsExceedsAvailable
  | ErrRead
  | Panic

subsection \<open>The random source\<close>

text \<open>
  An \<^verbatim>\<open>io.Reader\<close> is modelled by the stream of bytes it delivers: \<open>rd k\<close> is the
  \<open>k\<close>-th byte, or \<open>None\<close> when the read of that byte fails. The position in the stream
  is the only state a call changes; every function that reads takes the position and
  returns the new one, so the number of bytes a call consumed is the difference.
\<close>

type_synonym byte = "8 word"
type_synonym reader = "nat \<Rightarrow> byte option"

text \<open>Go's \<^verbatim>\<open>(value, error)\<close> pair, with the position of the reader after the call.\<close>

type_synonym 'a result = "('a \<times> error option) \<times> nat"

text \<open>\<^verbatim>\<open>MockReader\<close> of generate_test.go: the bytes 1, 2, 3, ... (mod 256), never an error.\<close>

definition MockReader :: reader where
  "MockReader k = Some (of_nat (k + 1))"

text \<open>A reader that delivers the bytes of a list and then fails (end of file).\<close>

definition bytes_reader :: "byte list \<Rightarrow> reader" where
  "bytes_reader bs k = (if k < length bs then Some (bs ! k) else None)"

subsection \<open>The generator (generate.go, lines 66 to 122)\<close>

record StatefulGenerator =
  lowerLetters :: string
  upperLetters :: string
  digits :: string
  symbols :: string
  reader :: reader

record GeneratorInput =
  in_LowerLetters :: string
  in_UpperLetters :: string
  in_Digits :: string
  in_Symbols :: string
  in_Reader :: "reader option"

text \<open>
  \<^verbatim>\<open>NewStatefulGenerator\<close>: a nil input is the zero \<^verbatim>\<open>GeneratorInput\<close>; an empty alphabet
  is replaced by the built-in one and a nil reader by \<^verbatim>\<open>crypto/rand.Reader\<close>, whose
  byte stream is the parameter \<open>sys\<close>. The returned error is always nil.
\<close>

definition NewStatefulGenerator :: "reader \<Rightarrow> GeneratorInput option \<Rightarrow> StatefulGenerator" where
  "NewStatefulGenerator sys inp =
    (let i = (case inp of
                None \<Rightarrow> \<lparr>in_LowerLetters = [], in_UpperLetters = [], in_Digits = [],
                          in_Symbols = [], in_Reader = None\<rparr>
              | Some i' \<Rightarrow> i')
     in \<lparr>lowerLetters = (if in_LowerLetters i = [] then LowerLetters else in_LowerLetters i),
         upperLetters = (if in_UpperLetters i = [] then UpperLetters else in_UpperLetters i),
         digits = (if in_Digits i = [] then Digits else in_Digits i),
         symbols = (if in_Symbols i = [] then Symbols else in_Symbols i),
         reader = (case in_Reader i of None \<Rightarrow> sys | Some r \<Rightarrow> r)\<rparr>)"

section \<open>The uniform sampler\<close>

subsection \<open>\<^verbatim>\<open>crypto/rand.Int\<close> of the Go standard library\<close>

text \<open>
  \<^verbatim>\<open>rand.Int(reader, max)\<close> is called by \<^verbatim>\<open>randomElement\<close> and \<^verbatim>\<open>randomInsert\<close>. It
  panics if \<^verbatim>\<open>max <= 0\<close>; it returns 0 without reading when \<^verbatim>\<open>max - 1\<close> has bit length
  0; otherwise it reads \<open>k\<close> bytes with \<^verbatim>\<open>io.ReadFull\<close>, clears the bits of the first byte
  above the bit length, reads the bytes as a big-endian number and returns it if it is
  below \<^verbatim>\<open>max\<close>, and reads the next \<open>k\<close> bytes otherwise. A failed read is returned as
  the error.
\<close>

fun bitLen :: "nat \<Rightarrow> nat" where
  "bitLen n = (if n = 0 then 0 else Suc (bitLen (n div 2)))"

declare bitLen.simps [simp del]

text \<open>\<^verbatim>\<open>io.ReadFull\<close>: exactly \<open>k\<close> bytes, or the failure and the position where it happened.\<close>

fun ReadFull :: "reader \<Rightarrow> nat \<Rightarrow> nat \<Rightarrow> byte list option \<times> nat" where
  "ReadFull rd 0 p = (Some [], p)"
| "ReadFull rd (Suc k) p =
    (case rd p of
       None \<Rightarrow> (None, p)
     | Some b \<Rightarrow>
        (case ReadFull rd k (Suc p) of
           (None, q) \<Rightarrow> (None, q)
         | (Some bs, q) \<Rightarrow> (Some (b # bs), q)))"

text \<open>\<^verbatim>\<open>big.Int.SetBytes\<close>: the bytes as a big-endian unsigned number.\<close>

definition SetBytes :: "byte list \<Rightarrow> nat" where
  "SetBytes bs = foldl (\<lambda>a b. a * 256 + unat b) 0 bs"

text \<open>\<^verbatim>\<open>bytes[0] &= uint8(int(1<<b) - 1)\<close>\<close>

fun clear_top :: "nat \<Rightarrow> byte list \<Rightarrow> byte list" where
  "clear_top b [] = []"
| "clear_top b (x # xs) = (x AND mask b) # xs"

partial_function (option) rand_Int_loop :: "reader \<Rightarrow> nat \<Rightarrow> nat \<Rightarrow> nat \<Rightarrow> nat \<Rightarrow> nat result option"
where
  "rand_Int_loop rd maxv k b p =
    (case ReadFull rd k p of
       (None, q) \<Rightarrow> Some ((0, Some ErrRead), q)
     | (Some bytes, q) \<Rightarrow>
        (let n = SetBytes (clear_top b bytes)
         in if n < maxv then Some ((n, None), q) else rand_Int_loop rd maxv k b q))"

declare rand_Int_loop.simps [code]

definition rand_Int :: "reader \<Rightarrow> int \<Rightarrow> nat \<Rightarrow> nat result option" where
  "rand_Int rd maxv p =
    (if maxv \<le> 0 then Some ((0, Some Panic), p)
     else
       let bl = bitLen (nat (maxv - 1))
       in if bl = 0 then Some ((0, None), p)
          else
            let k = (bl + 7) div 8;
                b = (if bl mod 8 = 0 then 8 else bl mod 8)
            in rand_Int_loop rd (nat maxv) k b p)"

subsection \<open>\<^verbatim>\<open>randomElement\<close> and \<^verbatim>\<open>randomInsert\<close> (generate.go, lines 268 to 289)\<close>

text \<open>
  \<^verbatim>\<open>string(s[i])\<close> converts the byte \<^verbatim>\<open>s[i]\<close>, an integer, to a string: the UTF-8 encoding
  of the code point with that number. A byte below 0x80 gives the one-byte string; a byte
  from 0x80 gives two bytes.
\<close>

definition string_of_byte :: "char \<Rightarrow> string" where
  "string_of_byte c =
    (let n = (of_char c :: nat)
     in if n < 128 then [c] else [char_of (192 + n div 64), char_of (128 + n mod 64)])"

definition randomElement :: "reader \<Rightarrow> string \<Rightarrow> nat \<Rightarrow> string result option" where
  "randomElement rd s p =
    (case rand_Int rd (int (length s)) p of
       None \<Rightarrow> None
     | Some ((n, Some e), q) \<Rightarrow> Some (('''', Some e), q)
     | Some ((n, None), q) \<Rightarrow>
        if n < length s then Some ((string_of_byte (s ! n), None), q)
        else Some (('''', Some Panic), q))"

definition randomInsert :: "reader \<Rightarrow> string \<Rightarrow> string \<Rightarrow> nat \<Rightarrow> string result option" where
  "randomInsert rd s val p =
    (if s = '''' then Some ((val, None), p)
     else
       case rand_Int rd (int (length s + 1)) p of
         None \<Rightarrow> None
       | Some ((n, Some e), q) \<Rightarrow> Some (('''', Some e), q)
       | Some ((i, None), q) \<Rightarrow>
          if i \<le> length s then Some ((take i s @ val @ drop i s, None), q)
          else Some (('''', Some Panic), q))"

section \<open>The password assembler (generate.go, lines 132 to 212)\<close>

text \<open>\<^verbatim>\<open>strings.Contains(s, substr)\<close>: \<open>substr\<close> occurs in \<open>s\<close> as a block of bytes.\<close>

fun strings_Contains :: "string \<Rightarrow> string \<Rightarrow> bool" where
  "strings_Contains [] substr = (substr = [])"
| "strings_Contains (c # s) substr = (prefix substr (c # s) \<or> strings_Contains s substr)"

text \<open>
  The three loops of \<^verbatim>\<open>Generate\<close> (letters, digits, symbols) are the same text over a
  different alphabet and bound: \<^verbatim>\<open>for i := 0; i < n; i++\<close> with the draw, the test
  \<^verbatim>\<open>!allowRepeat && strings.Contains(result, ch)\<close> whose \<^verbatim>\<open>i--; continue\<close> repeats the
  iteration with the same \<open>i\<close>, and the insertion. An error leaves \<^verbatim>\<open>Generate\<close> with the
  empty string. The counter stays between -1 and \<open>n\<close>, so it never wraps.
\<close>

partial_function (option) draw_loop ::
  "reader \<Rightarrow> string \<Rightarrow> bool \<Rightarrow> int \<Rightarrow> int \<Rightarrow> string \<Rightarrow> nat \<Rightarrow> string result option"
where
  "draw_loop rd alphabet allowRepeat n i result p =
    (if i < n then
       (case randomElement rd alphabet p of
          None \<Rightarrow> None
        | Some ((ch, Some e), q) \<Rightarrow> Some (('''', Some e), q)
        | Some ((ch, None), q) \<Rightarrow>
           if \<not> allowRepeat \<and> strings_Contains result ch
           then draw_loop rd alphabet allowRepeat n ((i - 1) + 1) result q
           else
             (case randomInsert rd result ch q of
                None \<Rightarrow> None
              | Some ((r, Some e), q') \<Rightarrow> Some (('''', Some e), q')
              | Some ((r, None), q') \<Rightarrow> draw_loop rd alphabet allowRepeat n (i + 1) r q'))
     else Some ((result, None), p))"

declare draw_loop.simps [code]

text \<open>
  Go's \<^verbatim>\<open>int\<close> is a signed machine integer, of 64 bits on the platforms the package is
  built and tested on: \<^verbatim>\<open>length - numDigits - numSymbols\<close> wraps around. \<^verbatim>\<open>len\<close> of a
  string is an \<^verbatim>\<open>int\<close> too, and never negative.
\<close>

definition Generate ::
  "StatefulGenerator \<Rightarrow> nat \<Rightarrow> 64 word \<Rightarrow> 64 word \<Rightarrow> 64 word \<Rightarrow> bool \<Rightarrow> bool \<Rightarrow> string result option"
where
  "Generate g p len numDigits numSymbols includeUpper allowRepeat =
    (let letters = lowerLetters g @ (if includeUpper then upperLetters g else '''');
         chars = len - numDigits - numSymbols
     in if chars <s 0 then Some (('''', Some ErrExceedsTotalLength), p)
        else if \<not> allowRepeat \<and> sint chars > int (length letters)
          then Some (('''', Some ErrLettersExceedsAvailable), p)
        else if \<not> allowRepeat \<and> sint numDigits > int (length (digits g))
          then Some (('''', Some ErrDigitsExceedsAvailable), p)
        else if \<not> allowRepeat \<and> sint numSymbols > int (length (symbols g))
          then Some (('''', Some ErrSymbolsExceedsAvailable), p)
        else
          (case draw_loop (reader g) letters allowRepeat (sint chars) 0 '''' p of
             None \<Rightarrow> None
           | Some ((r, Some e), q) \<Rightarrow> Some (('''', Some e), q)
           | Some ((r1, None), q1) \<Rightarrow>
              (case draw_loop (reader g) (digits g) allowRepeat (sint numDigits) 0 r1 q1 of
                 None \<Rightarrow> None
               | Some ((r, Some e), q) \<Rightarrow> Some (('''', Some e), q)
               | Some ((r2, None), q2) \<Rightarrow>
                  (case draw_loop (reader g) (symbols g) allowRepeat (sint numSymbols) 0 r2 q2 of
                     None \<Rightarrow> None
                   | Some ((r, Some e), q) \<Rightarrow> Some (('''', Some e), q)
                   | Some ((r3, None), q3) \<Rightarrow> Some ((r3, None), q3)))))"

section \<open>The policy enforcer (generate.go, lines 223 to 237 and 291 to 330)\<close>

text \<open>
  The four tests match a regular expression anywhere in the string (\<^verbatim>\<open>MatchString\<close> is
  not anchored): \<^verbatim>\<open>.*[[:lower:]].*\<close>, \<^verbatim>\<open>.*[[:upper:]].*\<close> and \<^verbatim>\<open>.*[[:digit:]].*\<close> match
  when some character is in the ASCII class (the \<^verbatim>\<open>.*\<close> may match nothing), and
  \<^verbatim>\<open>[^a-zA-Z0-9]+\<close> when some character is outside the three ranges.
\<close>

definition lower_class :: "char \<Rightarrow> bool" where
  "lower_class c = (97 \<le> (of_char c :: nat) \<and> (of_char c :: nat) \<le> 122)"

definition upper_class :: "char \<Rightarrow> bool" where
  "upper_class c = (65 \<le> (of_char c :: nat) \<and> (of_char c :: nat) \<le> 90)"

definition digit_class :: "char \<Rightarrow> bool" where
  "digit_class c = (48 \<le> (of_char c :: nat) \<and> (of_char c :: nat) \<le> 57)"

definition containsLower :: "string \<Rightarrow> bool" where
  "containsLower s = list_ex lower_class s"

definition containsUpper :: "string \<Rightarrow> bool" where
  "containsUpper s = list_ex upper_class s"

definition containsDigit :: "string \<Rightarrow> bool" where
  "containsDigit s = list_ex digit_class s"

definition containsSymbol :: "string \<Rightarrow> bool" where
  "containsSymbol s = list_ex (\<lambda>c. \<not> lower_class c \<and> \<not> upper_class c \<and> \<not> digit_class c) s"

definition isLegalPassword :: "string \<Rightarrow> bool \<Rightarrow> bool \<Rightarrow> bool \<Rightarrow> bool \<Rightarrow> bool" where
  "isLegalPassword p needsLower needsUpper needsDigit needsSymbol =
    (if needsLower \<and> \<not> containsLower p then False
     else if needsUpper \<and> \<not> containsUpper p then False
     else if needsDigit \<and> \<not> containsDigit p then False
     else if needsSymbol \<and> \<not> containsSymbol p then False
     else True)"

partial_function (option) GenerateWithPolicy ::
  "StatefulGenerator \<Rightarrow> nat \<Rightarrow> 64 word \<Rightarrow> 64 word \<Rightarrow> 64 word \<Rightarrow> bool \<Rightarrow> bool \<Rightarrow>
     bool \<Rightarrow> bool \<Rightarrow> bool \<Rightarrow> bool \<Rightarrow> string result option"
where
  "GenerateWithPolicy g p len numDigits numSymbols includeUpper allowRepeat
       needsLower needsUpper needsDigit needsSymbol =
    (case Generate g p len numDigits numSymbols includeUpper allowRepeat of
       None \<Rightarrow> None
     | Some ((r, Some e), q) \<Rightarrow> Some (('''', Some e), q)
     | Some ((r, None), q) \<Rightarrow>
        if isLegalPassword r needsLower needsUpper needsDigit needsSymbol
        then Some ((r, None), q)
        else GenerateWithPolicy g q len numDigits numSymbols includeUpper allowRepeat
               needsLower needsUpper needsDigit needsSymbol)"

declare GenerateWithPolicy.simps [code]

section \<open>Predicates of the statements\<close>

text \<open>The letter alphabet of a call: \<^verbatim>\<open>letters := g.lowerLetters; if includeUpper { letters += g.upperLetters }\<close>.\<close>

definition letters_of :: "StatefulGenerator \<Rightarrow> bool \<Rightarrow> string" where
  "letters_of g includeUpper = lowerLetters g @ (if includeUpper then upperLetters g else [])"

text \<open>The four errors of the validation at the head of \<^verbatim>\<open>Generate\<close>.\<close>

definition precondition_error :: "error \<Rightarrow> bool" where
  "precondition_error e =
    (e = ErrExceedsTotalLength \<or> e = ErrLettersExceedsAvailable \<or>
     e = ErrDigitsExceedsAvailable \<or> e = ErrSymbolsExceedsAvailable)"

text \<open>The request passes the four checks, as \<^verbatim>\<open>Generate\<close> computes them.\<close>

definition valid_request ::
  "StatefulGenerator \<Rightarrow> 64 word \<Rightarrow> 64 word \<Rightarrow> 64 word \<Rightarrow> bool \<Rightarrow> bool \<Rightarrow> bool" where
  "valid_request g len nd ns up rep =
    (0 \<le> sint (len - nd - ns) \<and>
     (\<not> rep \<longrightarrow> sint (len - nd - ns) \<le> int (length (letters_of g up)) \<and>
        sint nd \<le> int (length (digits g)) \<and> sint ns \<le> int (length (symbols g))))"

text \<open>An alphabet of ASCII characters: every byte is below 0x80, a character of its own.\<close>

definition ascii :: "string \<Rightarrow> bool" where
  "ascii s = list_all (\<lambda>c. (of_char c :: nat) < 128) s"

definition ascii_alphabets :: "StatefulGenerator \<Rightarrow> bool" where
  "ascii_alphabets g =
    (ascii (lowerLetters g) \<and> ascii (upperLetters g) \<and> ascii (digits g) \<and> ascii (symbols g))"

text \<open>What \<^verbatim>\<open>NewStatefulGenerator\<close> establishes: no alphabet that is drawn from is empty.\<close>

definition nonempty_alphabets :: "StatefulGenerator \<Rightarrow> bool" where
  "nonempty_alphabets g = (lowerLetters g \<noteq> [] \<and> digits g \<noteq> [] \<and> symbols g \<noteq> [])"

text \<open>
  A random source that answers every draw: from every position and for every positive
  bound, \<^verbatim>\<open>rand.Int\<close> returns a number and no error.
\<close>

definition reliable :: "reader \<Rightarrow> bool" where
  "reliable rd = (\<forall>maxv p. 0 < maxv \<longrightarrow> (\<exists>n q. rand_Int rd maxv p = Some ((n, None), q)))"

text \<open>The reader that delivers the byte 0 for ever.\<close>

definition zero_reader :: reader where
  "zero_reader k = Some 0"

text \<open>What a call of \<^verbatim>\<open>rand.Int\<close> with bound \<open>bound\<close> from position \<open>p\<close> can return.\<close>

definition draw_ok :: "nat \<Rightarrow> nat \<Rightarrow> nat result \<Rightarrow> bool" where
  "draw_ok bound p y =
    (p \<le> snd y \<and>
     (case fst y of (n, None) \<Rightarrow> n < bound | (n, Some e) \<Rightarrow> e = ErrRead \<or> e = Panic))"

text \<open>
  What one of the three loops can return when it is entered with counter \<open>i\<close>, bound
  \<open>n\<close> and the string \<open>result\<close>.
\<close>

definition loop_post ::
  "string \<Rightarrow> bool \<Rightarrow> int \<Rightarrow> int \<Rightarrow> string \<Rightarrow> nat \<Rightarrow> string result \<Rightarrow> bool" where
  "loop_post alphabet allowRepeat n i result p y =
    (p \<le> snd y \<and>
     (case fst y of
        (r, Some e) \<Rightarrow> r = [] \<and> (e = ErrRead \<or> e = Panic)
      | (r, None) \<Rightarrow>
          ascii alphabet \<longrightarrow>
            length r = length result + nat (n - i) \<and>
            (\<not> allowRepeat \<and> distinct result \<longrightarrow> distinct r)))"

text \<open>The error of the validation at the head of \<^verbatim>\<open>Generate\<close>, if there is one.\<close>

definition validation_error ::
  "StatefulGenerator \<Rightarrow> 64 word \<Rightarrow> 64 word \<Rightarrow> 64 word \<Rightarrow> bool \<Rightarrow> bool \<Rightarrow> error option" where
  "validation_error g len nd ns up rep =
    (if len - nd - ns <s 0 then Some ErrExceedsTotalLength
     else if \<not> rep \<and> sint (len - nd - ns) > int (length (letters_of g up))
       then Some ErrLettersExceedsAvailable
     else if \<not> rep \<and> sint nd > int (length (digits g)) then Some ErrDigitsExceedsAvailable
     else if \<not> rep \<and> sint ns > int (length (symbols g)) then Some ErrSymbolsExceedsAvailable
     else None)"

text \<open>
  Two readers deliver the same bytes from their positions on: \<open>rd1\<close> from \<open>p1\<close> and
  \<open>rd2\<close> from \<open>p2\<close>.
\<close>

definition same_stream :: "reader \<Rightarrow> nat \<Rightarrow> reader \<Rightarrow> nat \<Rightarrow> bool" where
  "same_stream rd1 p1 rd2 p2 = (\<forall>k. rd1 (p1 + k) = rd2 (p2 + k))"

text \<open>
  What a caller observes of a call that started at position \<open>p\<close>: the returned pair and
  the number of bytes consumed, or \<open>None\<close> when the call does not return.
\<close>

definition outcome :: "nat \<Rightarrow> 'a result option \<Rightarrow> 'a result option" where
  "outcome p res = map_option (\<lambda>(v, q). (v, q - p)) res"

section \<open>The sampler and the loops\<close>

lemma ReadFull_pos: "ReadFull rd k p = (r, q) \<Longrightarrow> p \<le> q"
  by (induction k arbitrary: p r q) (fastforce split: option.splits prod.splits)+

lemma ReadFull_Some: "ReadFull rd k p = (Some bs, q) \<Longrightarrow> q = p + k \<and> length bs = k"
  by (induction k arbitrary: p bs q) (fastforce split: option.splits prod.splits)+

lemmas rand_Int_loop_induct = rand_Int_loop.raw_induct[rotated 1, consumes 1, case_names step]

lemma rand_Int_loop_sound:
  "rand_Int_loop rd maxv k b p = Some y \<Longrightarrow> draw_ok maxv p y"
proof (induct rule: rand_Int_loop_induct)
  case (step f rd maxv k b p y)
  obtain r q where rq: "ReadFull rd k p = (r, q)" by (cases "ReadFull rd k p")
  then have pq: "p \<le> q" by (rule ReadFull_pos)
  show ?case
  proof (cases r)
    case None
    with step(2) rq pq show ?thesis by (auto simp: draw_ok_def)
  next
    case (Some bytes)
    show ?thesis
    proof (cases "SetBytes (clear_top b bytes) < maxv")
      case True
      with step(2) rq pq Some show ?thesis by (auto simp: draw_ok_def)
    next
      case False
      with step(2) rq Some have "f rd maxv k b q = Some y" by simp
      then have "draw_ok maxv q y" by (rule step(1))
      with pq show ?thesis by (auto simp: draw_ok_def)
    qed
  qed
qed

lemma rand_Int_sound:
  assumes "rand_Int rd maxv p = Some y"
  shows "draw_ok (nat maxv) p y"
proof (cases "maxv \<le> 0")
  case True
  with assms show ?thesis by (auto simp: rand_Int_def draw_ok_def)
next
  case False
  show ?thesis
  proof (cases "bitLen (nat (maxv - 1)) = 0")
    case True
    with assms False show ?thesis by (auto simp: rand_Int_def draw_ok_def)
  next
    case nz: False
    with assms False show ?thesis
      by (auto simp: rand_Int_def Let_def dest: rand_Int_loop_sound split: if_splits)
  qed
qed

lemma ascii_nth: "ascii s \<Longrightarrow> i < length s \<Longrightarrow> string_of_byte (s ! i) = [s ! i]"
  by (simp add: ascii_def list_all_length string_of_byte_def)

lemma ascii_append: "ascii (s @ t) = (ascii s \<and> ascii t)"
  by (simp add: ascii_def)

lemma strings_Contains_single: "strings_Contains s [c] = (c \<in> set s)"
  by (induction s) auto

lemma randomElement_sound:
  assumes "randomElement rd s p = Some ((ch, eo), q)"
  shows "p \<le> q \<and>
    (case eo of
       None \<Rightarrow> \<exists>i<length s. ch = string_of_byte (s ! i)
     | Some e \<Rightarrow> ch = [] \<and> (e = ErrRead \<or> e = Panic))"
proof -
  obtain n e' q' where r: "rand_Int rd (int (length s)) p = Some ((n, e'), q')"
    using assms by (auto simp: randomElement_def split: option.splits)
  from rand_Int_sound[OF r] have ok: "p \<le> q'" "e' = None \<longrightarrow> n < length s"
    "\<forall>e. e' = Some e \<longrightarrow> e = ErrRead \<or> e = Panic"
    by (auto simp: draw_ok_def split: option.splits)
  from assms r ok show ?thesis
    by (cases e') (auto simp: randomElement_def split: if_splits)
qed

lemma randomInsert_sound:
  assumes "randomInsert rd s v p = Some ((r, eo), q)"
  shows "p \<le> q \<and>
    (case eo of
       None \<Rightarrow> \<exists>i\<le>length s. r = take i s @ v @ drop i s
     | Some e \<Rightarrow> r = [] \<and> (e = ErrRead \<or> e = Panic))"
proof (cases "s = []")
  case True
  with assms show ?thesis by (auto simp: randomInsert_def)
next
  case False
  then obtain n e' q' where r: "rand_Int rd (int (length s + 1)) p = Some ((n, e'), q')"
    using assms by (auto simp: randomInsert_def split: option.splits)
  from rand_Int_sound[OF r] have ok: "p \<le> q'" "e' = None \<longrightarrow> n \<le> length s"
    "\<forall>e. e' = Some e \<longrightarrow> e = ErrRead \<or> e = Panic"
    by (auto simp: draw_ok_def split: option.splits)
  from assms r ok False show ?thesis
    by (cases e') (auto simp: randomInsert_def split: if_splits)
qed

lemmas draw_loop_induct = draw_loop.raw_induct[rotated 1, consumes 1, case_names step]

lemma loop_post_mono: "loop_post a rep n i res q y \<Longrightarrow> p \<le> q \<Longrightarrow> loop_post a rep n i res p y"
  by (auto simp: loop_post_def)

lemma draw_loop_sound:
  "draw_loop rd alphabet allowRepeat n i result p = Some y \<Longrightarrow>
     loop_post alphabet allowRepeat n i result p y"
proof (induct rule: draw_loop_induct)
  case (step f rd a rep n i res p y)
  show ?case
  proof (cases "i < n")
    case False
    with step(2) show ?thesis by (auto simp: loop_post_def)
  next
    case True
    with step(2) obtain ch eo q where el: "randomElement rd a p = Some ((ch, eo), q)"
      by (auto split: option.splits)
    note es = randomElement_sound[OF el]
    show ?thesis
    proof (cases eo)
      case (Some e)
      with step(2) True el es show ?thesis by (auto simp: loop_post_def)
    next
      case None
      with es obtain j where j: "j < length a" "ch = string_of_byte (a ! j)" by auto
      show ?thesis
      proof (cases "\<not> rep \<and> strings_Contains res ch")
        case retry: True
        with step(2) True el None have "f rd a rep n i res q = Some y" by simp
        then have "loop_post a rep n i res q y" by (rule step(1))
        with es show ?thesis by (auto intro: loop_post_mono)
      next
        case ins: False
        with step(2) True el None obtain r eo' q'
          where ri: "randomInsert rd res ch q = Some ((r, eo'), q')"
          by (auto split: option.splits)
        note rs = randomInsert_sound[OF ri]
        show ?thesis
        proof (cases eo')
          case (Some e)
          with step(2) True el None ins ri rs es show ?thesis by (auto simp: loop_post_def)
        next
          case ok: None
          with step(2) True el None ins ri have "f rd a rep n (i + 1) r q' = Some y" by auto
          then have post: "loop_post a rep n (i + 1) r q' y" by (rule step(1))
          from rs ok obtain m where m: "m \<le> length res" "r = take m res @ ch @ drop m res"
            by auto
          have pq: "p \<le> snd y" using post es rs by (auto simp: loop_post_def)
          show ?thesis
          proof (cases "ascii a")
            case False
            with post pq show ?thesis by (auto simp: loop_post_def split: option.splits prod.splits)
          next
            case asc: True
            with j have ch: "ch = [a ! j]" by (simp add: ascii_nth)
            have len: "length r = length res + 1" using m ch by simp
            have dist: "\<not> rep \<and> distinct res \<longrightarrow> distinct r"
            proof
              assume a: "\<not> rep \<and> distinct res"
              with ins ch have notin: "a ! j \<notin> set res" by (simp add: strings_Contains_single)
              have "distinct (take m res @ drop m res)" using a by simp
              then have d: "distinct (take m res)" "distinct (drop m res)"
                "set (take m res) \<inter> set (drop m res) = {}" by (auto simp del: append_take_drop_id)
              have "set (take m res) \<subseteq> set res" "set (drop m res) \<subseteq> set res"
                by (auto dest: in_set_takeD in_set_dropD)
              with notin d m ch show "distinct r" by auto
            qed
            have arith: "nat (n - i) = 1 + nat (n - (i + 1))" using True by simp
            from post asc len dist arith pq show ?thesis
              by (auto simp: loop_post_def split: option.splits prod.splits)
          qed
        qed
      qed
    qed
  qed
qed

lemma Generate_invalid:
  assumes "\<not> valid_request g len nd ns up rep"
  shows "\<exists>e. Generate g p len nd ns up rep = Some (([], Some e), p) \<and> precondition_error e"
  using assms
  by (auto simp: Generate_def valid_request_def letters_of_def Let_def precondition_error_def
      word_sless_alt)

lemma Generate_valid:
  assumes "valid_request g len nd ns up rep"
  shows "Generate g p len nd ns up rep =
    (case draw_loop (reader g) (letters_of g up) rep (sint (len - nd - ns)) 0 [] p of
       None \<Rightarrow> None
     | Some ((r, Some e), q) \<Rightarrow> Some (([], Some e), q)
     | Some ((r1, None), q1) \<Rightarrow>
        (case draw_loop (reader g) (digits g) rep (sint nd) 0 r1 q1 of
           None \<Rightarrow> None
         | Some ((r, Some e), q) \<Rightarrow> Some (([], Some e), q)
         | Some ((r2, None), q2) \<Rightarrow>
            (case draw_loop (reader g) (symbols g) rep (sint ns) 0 r2 q2 of
               None \<Rightarrow> None
             | Some ((r, Some e), q) \<Rightarrow> Some (([], Some e), q)
             | Some ((r3, None), q3) \<Rightarrow> Some ((r3, None), q3))))"
  using assms
  by (auto simp: Generate_def valid_request_def letters_of_def Let_def word_sless_alt)

lemma Generate_ok_runs:
  assumes "Generate g p len nd ns up rep = Some ((r, None), q)"
  shows "valid_request g len nd ns up rep \<and>
    (\<exists>r1 q1 r2 q2.
       draw_loop (reader g) (letters_of g up) rep (sint (len - nd - ns)) 0 [] p = Some ((r1, None), q1) \<and>
       draw_loop (reader g) (digits g) rep (sint nd) 0 r1 q1 = Some ((r2, None), q2) \<and>
       draw_loop (reader g) (symbols g) rep (sint ns) 0 r2 q2 = Some ((r, None), q))"
proof -
  have v: "valid_request g len nd ns up rep"
    using assms Generate_invalid[of g len nd ns up rep p] by auto
  from assms show ?thesis unfolding Generate_valid[OF v] using v
    by (auto split: option.splits prod.splits)
qed

lemma Generate_error:
  assumes "Generate g p len nd ns up rep = Some ((r, Some e), q)"
  shows "r = [] \<and> p \<le> q \<and> (precondition_error e \<longrightarrow> q = p \<and> \<not> valid_request g len nd ns up rep)"
proof (cases "valid_request g len nd ns up rep")
  case False
  from Generate_invalid[OF False, of p] assms False show ?thesis by auto
next
  case v: True
  from assms have "r = [] \<and> p \<le> q \<and> (e = ErrRead \<or> e = Panic)"
    unfolding Generate_valid[OF v]
    by (auto split: option.splits prod.splits dest!: draw_loop_sound simp: loop_post_def)
  then show ?thesis by (auto simp: precondition_error_def)
qed

lemma Generate_result_length:
  assumes "Generate g p len nd ns up rep = Some ((r, None), q)" and "ascii_alphabets g"
  shows "int (length r) = sint (len - nd - ns) + max 0 (sint nd) + max 0 (sint ns)"
proof -
  from Generate_ok_runs[OF assms(1)] obtain r1 q1 r2 q2 where
    v: "valid_request g len nd ns up rep" and
    l1: "draw_loop (reader g) (letters_of g up) rep (sint (len - nd - ns)) 0 [] p = Some ((r1, None), q1)" and
    l2: "draw_loop (reader g) (digits g) rep (sint nd) 0 r1 q1 = Some ((r2, None), q2)" and
    l3: "draw_loop (reader g) (symbols g) rep (sint ns) 0 r2 q2 = Some ((r, None), q)"
    by blast
  have a: "ascii (letters_of g up)" "ascii (digits g)" "ascii (symbols g)"
    using assms(2) by (auto simp: ascii_alphabets_def letters_of_def ascii_append ascii_def)
  from draw_loop_sound[OF l1] a have "length r1 = nat (sint (len - nd - ns))"
    by (simp add: loop_post_def)
  moreover from draw_loop_sound[OF l2] a have "length r2 = length r1 + nat (sint nd)"
    by (simp add: loop_post_def)
  moreover from draw_loop_sound[OF l3] a have "length r = length r2 + nat (sint ns)"
    by (simp add: loop_post_def)
  moreover have "0 \<le> sint (len - nd - ns)" using v by (simp add: valid_request_def)
  ultimately show ?thesis by simp
qed

lemma Generate_result_distinct:
  assumes "Generate g p len nd ns up False = Some ((r, None), q)" and "ascii_alphabets g"
  shows "distinct r"
proof -
  from Generate_ok_runs[OF assms(1)] obtain r1 q1 r2 q2 where
    l1: "draw_loop (reader g) (letters_of g up) False (sint (len - nd - ns)) 0 [] p = Some ((r1, None), q1)" and
    l2: "draw_loop (reader g) (digits g) False (sint nd) 0 r1 q1 = Some ((r2, None), q2)" and
    l3: "draw_loop (reader g) (symbols g) False (sint ns) 0 r2 q2 = Some ((r, None), q)"
    by blast
  have a: "ascii (letters_of g up)" "ascii (digits g)" "ascii (symbols g)"
    using assms(2) by (auto simp: ascii_alphabets_def letters_of_def ascii_append ascii_def)
  from draw_loop_sound[OF l1] a have "distinct r1" by (simp add: loop_post_def)
  with draw_loop_sound[OF l2] a have "distinct r2" by (simp add: loop_post_def)
  with draw_loop_sound[OF l3] a show ?thesis by (simp add: loop_post_def)
qed

lemma ReadFull_zero: "ReadFull zero_reader k p = (Some (replicate k 0), p + k)"
  by (induction k arbitrary: p) (simp_all add: zero_reader_def)

lemma clear_top_zero: "clear_top b (replicate k 0) = replicate k 0"
  by (cases k) simp_all

lemma SetBytes_zero: "SetBytes (replicate k 0) = 0"
proof -
  have "foldl (\<lambda>a (b::byte). a * 256 + unat b) 0 (replicate k 0) = (0::nat)"
    by (induction k) simp_all
  then show ?thesis by (simp add: SetBytes_def)
qed

lemma reliable_zero_reader: "reliable zero_reader"
  unfolding reliable_def
proof (intro allI impI)
  fix maxv :: int and p
  assume "0 < maxv"
  then show "\<exists>n q. rand_Int zero_reader maxv p = Some ((n, None), q)"
    by (subst rand_Int_def, subst rand_Int_loop.simps)
       (simp add: Let_def ReadFull_zero clear_top_zero SetBytes_zero)
qed

lemma randomElement_total:
  assumes "reliable rd" "s \<noteq> []"
  shows "\<exists>ch q. randomElement rd s p = Some ((ch, None), q)"
proof -
  from assms obtain n q where r: "rand_Int rd (int (length s)) p = Some ((n, None), q)"
    unfolding reliable_def by (metis length_greater_0_conv of_nat_0_less_iff)
  from rand_Int_sound[OF r] have "n < length s" by (simp add: draw_ok_def)
  with r show ?thesis by (simp add: randomElement_def)
qed

lemma randomInsert_total:
  assumes "reliable rd"
  shows "\<exists>r q. randomInsert rd s v p = Some ((r, None), q)"
proof (cases "s = []")
  case True
  then show ?thesis by (simp add: randomInsert_def)
next
  case False
  have "0 < int (length s + 1)" by simp
  with assms obtain n q where r: "rand_Int rd (int (length s + 1)) p = Some ((n, None), q)"
    unfolding reliable_def by blast
  from rand_Int_sound[OF r] have "n \<le> length s" by (auto simp: draw_ok_def)
  with r False show ?thesis by (simp add: randomInsert_def)
qed

lemma draw_loop_total:
  assumes "reliable rd" "alphabet \<noteq> []"
  shows "\<exists>r q. draw_loop rd alphabet True n i res p = Some ((r, None), q)"
proof (induction "nat (n - i)" arbitrary: i res p)
  case 0
  then have "\<not> i < n" by simp
  then show ?case by (subst draw_loop.simps) simp
next
  case (Suc m)
  then have lt: "i < n" by linarith
  from randomElement_total[OF assms] obtain ch q
    where e: "randomElement rd alphabet p = Some ((ch, None), q)" by blast
  from randomInsert_total[OF assms(1)] obtain r q'
    where ins: "randomInsert rd res ch q = Some ((r, None), q')" by blast
  have "m = nat (n - (i + 1))" using Suc(2) by linarith
  from Suc(1)[OF this] obtain r' q'' where
    "draw_loop rd alphabet True n (i + 1) r q' = Some ((r', None), q'')" by blast
  with lt e ins show ?case by (subst draw_loop.simps) simp
qed

lemma Generate_total:
  assumes "reliable (reader g)" "nonempty_alphabets g" "0 \<le> sint (len - nd - ns)"
  shows "\<exists>r q. Generate g p len nd ns up True = Some ((r, None), q)"
proof -
  have v: "valid_request g len nd ns up True" using assms(3) by (simp add: valid_request_def)
  have ne: "letters_of g up \<noteq> []" "digits g \<noteq> []" "symbols g \<noteq> []"
    using assms(2) by (auto simp: nonempty_alphabets_def letters_of_def)
  from draw_loop_total[OF assms(1) ne(1)] obtain r1 q1 where
    l1: "draw_loop (reader g) (letters_of g up) True (sint (len - nd - ns)) 0 [] p = Some ((r1, None), q1)"
    by blast
  from draw_loop_total[OF assms(1) ne(2)] obtain r2 q2 where
    l2: "draw_loop (reader g) (digits g) True (sint nd) 0 r1 q1 = Some ((r2, None), q2)"
    by blast
  from draw_loop_total[OF assms(1) ne(3)] obtain r3 q3 where
    l3: "draw_loop (reader g) (symbols g) True (sint ns) 0 r2 q2 = Some ((r3, None), q3)"
    by blast
  show ?thesis unfolding Generate_valid[OF v] using l1 l2 l3 by simp
qed

lemma NewStatefulGenerator_nonempty: "nonempty_alphabets (NewStatefulGenerator sys inp)"
  by (simp add: nonempty_alphabets_def NewStatefulGenerator_def Let_def LowerLetters_def
      Digits_def Symbols_def)

lemma sint_diff3:
  fixes a b c :: "64 word"
  assumes "- (2 ^ 63) \<le> sint a - sint b - sint c" "sint a - sint b - sint c < 2 ^ 63"
  shows "sint (a - b - c) = sint a - sint b - sint c"
proof -
  have "a - b - c = word_of_int (sint a - sint b - sint c)" by simp
  then have "sint (a - b - c) = signed_take_bit 63 (sint a - sint b - sint c)"
    by (simp only: sint_sbintrunc') simp
  also have "\<dots> = sint a - sint b - sint c"
    using assms by (intro signed_take_bit_int_eq_self) simp_all
  finally show ?thesis .
qed

section \<open>The validation\<close>

lemma validation_error_None:
  "(validation_error g len nd ns up rep = None) = valid_request g len nd ns up rep"
  by (auto simp: validation_error_def valid_request_def word_sless_alt)

lemma Generate_validation_error:
  "validation_error g len nd ns up rep = Some e \<Longrightarrow>
     Generate g p len nd ns up rep = Some (([], Some e), p)"
  by (auto simp: validation_error_def Generate_def Let_def letters_of_def split: if_splits)

lemma Generate_ErrExceedsTotalLength_iff:
  assumes "- (2 ^ 63) \<le> sint len - sint nd - sint ns" "sint len - sint nd - sint ns < 2 ^ 63"
  shows "(\<exists>r q. Generate g p len nd ns up rep = Some ((r, Some ErrExceedsTotalLength), q))
           = (sint len < sint nd + sint ns)"
proof -
  have chars: "sint (len - nd - ns) = sint len - sint nd - sint ns"
    using assms by (rule sint_diff3)
  show ?thesis
  proof (cases "sint len < sint nd + sint ns")
    case True
    then have "validation_error g len nd ns up rep = Some ErrExceedsTotalLength"
      using chars by (simp add: validation_error_def word_sless_alt)
    from Generate_validation_error[OF this, of p] True show ?thesis by simp
  next
    case False
    then have ne: "validation_error g len nd ns up rep \<noteq> Some ErrExceedsTotalLength"
      using chars by (simp add: validation_error_def word_sless_alt)
    have "Generate g p len nd ns up rep \<noteq> Some ((r, Some ErrExceedsTotalLength), q)" for r q
    proof (cases "validation_error g len nd ns up rep")
      case None
      then have v: "valid_request g len nd ns up rep" by (simp add: validation_error_None)
      show ?thesis
      proof
        assume "Generate g p len nd ns up rep = Some ((r, Some ErrExceedsTotalLength), q)"
        from Generate_error[OF this] v show False by (simp add: precondition_error_def)
      qed
    next
      case (Some e)
      from Generate_validation_error[OF this, of p] ne Some show ?thesis by auto
    qed
    with False show ?thesis by simp
  qed
qed

section \<open>The built-in alphabets are ASCII\<close>

lemma ascii_default: "ascii LowerLetters" "ascii UpperLetters" "ascii Digits" "ascii Symbols"
  by (simp_all add: ascii_def LowerLetters_def UpperLetters_def Digits_def Symbols_def)

lemma ascii_alphabets_default: "ascii_alphabets (NewStatefulGenerator sys None)"
  by (simp add: ascii_alphabets_def NewStatefulGenerator_def ascii_default)

section \<open>Loops that never end\<close>

lemma draw_loop_stuck:
  assumes "draw_loop rd alphabet allowRepeat n i result p = Some y"
  shows "\<not> (alphabet = ''a'' \<and> \<not> allowRepeat \<and> i < n \<and> CHR ''a'' \<in> set result)"
  using assms
proof (induct rule: draw_loop_induct)
  case (step f rd a rep n i res p y)
  show ?case
  proof
    assume st: "a = ''a'' \<and> \<not> rep \<and> i < n \<and> CHR ''a'' \<in> set res"
    have el: "randomElement rd ''a'' p = Some ((''a'', None), p)"
      by (simp add: randomElement_def rand_Int_def bitLen.simps string_of_byte_def)
    from st have "strings_Contains res ''a''" by (simp add: strings_Contains_single)
    with step(2) st el have "f rd a rep n i res p = Some y" by simp
    from step(1)[OF this] st show False by simp
  qed
qed

lemma draw_loop_zero_reader_stuck:
  assumes "draw_loop rd alphabet allowRepeat n i result p = Some y"
  shows "\<not> (rd = zero_reader \<and> alphabet = LowerLetters \<and> \<not> allowRepeat \<and> i < n \<and>
            CHR ''a'' \<in> set result)"
  using assms
proof (induct rule: draw_loop_induct)
  case (step f rd a rep n i res p y)
  show ?case
  proof
    assume st: "rd = zero_reader \<and> a = LowerLetters \<and> \<not> rep \<and> i < n \<and> CHR ''a'' \<in> set res"
    have bl: "bitLen 25 = 5" by code_simp
    have "rand_Int zero_reader 26 p = Some ((0, None), p + 1)"
      by (subst rand_Int_def, subst rand_Int_loop.simps)
         (simp add: Let_def bl ReadFull_zero clear_top_zero SetBytes_zero)
    then have el: "randomElement zero_reader LowerLetters p = Some ((''a'', None), p + 1)"
      by (simp add: randomElement_def LowerLetters_def string_of_byte_def)
    from st have "strings_Contains res ''a''" by (simp add: strings_Contains_single)
    with step(2) st el have "f rd a rep n i res (p + 1) = Some y" by simp
    from step(1)[OF this] st show False by simp
  qed
qed

text \<open>
  With the built-in alphabets the end of a loop depends on the random source: on the
  reader that delivers only zero bytes every draw is the letter a, and
  \<^verbatim>\<open>Generate(2, 0, 0, false, false)\<close> never returns.
\<close>

lemma Generate_zero_reader_never_returns:
  "Generate (NewStatefulGenerator zero_reader None) p 2 0 0 False False = None"
proof -
  let ?g = "NewStatefulGenerator zero_reader None"
  have g: "reader ?g = zero_reader" "letters_of ?g False = LowerLetters"
    by (simp_all add: NewStatefulGenerator_def letters_of_def)
  have v: "valid_request ?g 2 0 0 False False"
    by (simp add: valid_request_def g LowerLetters_def)
  have bl: "bitLen 25 = 5" by code_simp
  have "rand_Int zero_reader 26 p = Some ((0, None), p + 1)"
    by (subst rand_Int_def, subst rand_Int_loop.simps)
       (simp add: Let_def bl ReadFull_zero clear_top_zero SetBytes_zero)
  then have el: "randomElement zero_reader LowerLetters p = Some ((''a'', None), p + 1)"
    by (simp add: randomElement_def LowerLetters_def string_of_byte_def)
  have "draw_loop zero_reader LowerLetters False 2 1 ''a'' (p + 1) = None"
  proof (cases "draw_loop zero_reader LowerLetters False 2 1 ''a'' (p + 1)")
    case (Some y)
    from draw_loop_zero_reader_stuck[OF this] show ?thesis by simp
  qed simp
  then have "draw_loop zero_reader LowerLetters False 2 0 [] p = None"
    by (subst draw_loop.simps) (simp add: el randomInsert_def)
  then show ?thesis unfolding Generate_valid[OF v] g by simp
qed

section \<open>The policy loop\<close>

lemmas GenerateWithPolicy_induct =
  GenerateWithPolicy.raw_induct[rotated 1, consumes 1, case_names step]

lemma GenerateWithPolicy_legal:
  assumes "GenerateWithPolicy g p len numDigits numSymbols includeUpper allowRepeat
             needsLower needsUpper needsDigit needsSymbol = Some y"
  shows "case fst y of
           (r, None) \<Rightarrow> isLegalPassword r needsLower needsUpper needsDigit needsSymbol
         | (r, Some e) \<Rightarrow> r = []"
  using assms
proof (induct rule: GenerateWithPolicy_induct)
  case (step f g p len nd ns up rep nl nu ndg nsy y)
  from step(2) obtain r eo q where
    gen: "Generate g p len nd ns up rep = Some ((r, eo), q)"
    by (auto split: option.splits)
  show ?case
  proof (cases eo)
    case (Some e)
    with step(2) gen show ?thesis by auto
  next
    case None
    show ?thesis
    proof (cases "isLegalPassword r nl nu ndg nsy")
      case True
      with step(2) gen None show ?thesis by auto
    next
      case False
      with step(2) gen None have "f g q len nd ns up rep nl nu ndg nsy = Some y" by simp
      then show ?thesis by (rule step(1))
    qed
  qed
qed

section \<open>The same bytes give the same run\<close>

lemma same_stream_advance:
  "same_stream rd1 p1 rd2 p2 \<Longrightarrow> same_stream rd1 (p1 + d) rd2 (p2 + d)"
  by (simp add: same_stream_def add.assoc)

lemma same_stream_sym: "same_stream rd1 p1 rd2 p2 \<Longrightarrow> same_stream rd2 p2 rd1 p1"
  by (simp add: same_stream_def)

lemma ReadFull_shift:
  assumes "same_stream rd1 p1 rd2 p2" "ReadFull rd1 k p1 = (r, q1)"
  shows "\<exists>d. q1 = p1 + d \<and> ReadFull rd2 k p2 = (r, p2 + d)"
  using assms
proof (induction k arbitrary: p1 p2 r q1)
  case 0
  then show ?case by simp
next
  case (Suc k)
  from Suc.prems(1) have hd: "rd1 p1 = rd2 p2"
    unfolding same_stream_def by (metis add.right_neutral)
  show ?case
  proof (cases "rd1 p1")
    case None
    with Suc.prems(2) hd show ?thesis by auto
  next
    case (Some b)
    obtain r' q' where rest: "ReadFull rd1 k (Suc p1) = (r', q')"
      by (cases "ReadFull rd1 k (Suc p1)")
    have "same_stream rd1 (Suc p1) rd2 (Suc p2)"
      using same_stream_advance[OF Suc.prems(1), of 1] by simp
    from Suc.IH[OF this rest] obtain d where
      d: "q' = Suc p1 + d" "ReadFull rd2 k (Suc p2) = (r', p2 + Suc d)" by auto
    from Suc.prems(2) Some hd rest d show ?thesis
      by (cases r') (auto intro: exI[of _ "Suc d"])
  qed
qed

lemma rand_Int_loop_shift:
  assumes "rand_Int_loop rd1 maxv k b p1 = Some y"
  shows "same_stream rd1 p1 rd2 p2 \<longrightarrow>
    (\<exists>d. snd y = p1 + d \<and> rand_Int_loop rd2 maxv k b p2 = Some (fst y, p2 + d))"
  using assms
proof (induct arbitrary: p2 rule: rand_Int_loop_induct)
  case (step f rd1 maxv k b p1 y)
  show ?case
  proof
    assume ss: "same_stream rd1 p1 rd2 p2"
    obtain r q1 where rf: "ReadFull rd1 k p1 = (r, q1)" by (cases "ReadFull rd1 k p1")
    from ReadFull_shift[OF ss rf] obtain d1 where
      d1: "q1 = p1 + d1" "ReadFull rd2 k p2 = (r, p2 + d1)" by blast
    show "\<exists>d. snd y = p1 + d \<and> rand_Int_loop rd2 maxv k b p2 = Some (fst y, p2 + d)"
    proof (cases r)
      case None
      with step(2) rf d1 show ?thesis
        by (subst rand_Int_loop.simps) auto
    next
      case (Some bytes)
      show ?thesis
      proof (cases "SetBytes (clear_top b bytes) < maxv")
        case True
        with step(2) rf d1 Some show ?thesis
          by (subst rand_Int_loop.simps) auto
      next
        case False
        with step(2) rf Some have "f rd1 maxv k b q1 = Some y" by simp
        from step(1)[OF this, of "p2 + d1"] same_stream_advance[OF ss, of d1] d1 obtain d2 where
          d2: "snd y = p1 + d1 + d2" "rand_Int_loop rd2 maxv k b (p2 + d1) = Some (fst y, p2 + d1 + d2)"
          by auto
        have "rand_Int_loop rd2 maxv k b p2 = rand_Int_loop rd2 maxv k b (p2 + d1)"
          using d1 Some False by (subst rand_Int_loop.simps) simp
        with d2 show ?thesis by (auto intro: exI[of _ "d1 + d2"] simp: add.assoc)
      qed
    qed
  qed
qed

lemma rand_Int_shift:
  assumes "same_stream rd1 p1 rd2 p2" "rand_Int rd1 maxv p1 = Some (v, q1)"
  shows "\<exists>d. q1 = p1 + d \<and> rand_Int rd2 maxv p2 = Some (v, p2 + d)"
proof (cases "maxv \<le> 0 \<or> bitLen (nat (maxv - 1)) = 0")
  case True
  with assms(2) show ?thesis by (auto simp: rand_Int_def Let_def split: if_splits)
next
  case False
  with assms(2) rand_Int_loop_shift[of rd1 "nat maxv" _ _ p1 "(v, q1)" rd2 p2] assms(1)
  show ?thesis by (auto simp: rand_Int_def Let_def)
qed

lemma randomElement_shift:
  assumes "same_stream rd1 p1 rd2 p2" "randomElement rd1 s p1 = Some (v, q1)"
  shows "\<exists>d. q1 = p1 + d \<and> randomElement rd2 s p2 = Some (v, p2 + d)"
proof -
  from assms(2) obtain w q where r: "rand_Int rd1 (int (length s)) p1 = Some (w, q)"
    by (auto simp: randomElement_def split: option.splits)
  from rand_Int_shift[OF assms(1) r] obtain d where
    d: "q = p1 + d" "rand_Int rd2 (int (length s)) p2 = Some (w, p2 + d)" by blast
  from assms(2) r d show ?thesis
    by (auto simp: randomElement_def split: prod.splits option.splits if_splits)
qed

lemma randomInsert_shift:
  assumes "same_stream rd1 p1 rd2 p2" "randomInsert rd1 s x p1 = Some (v, q1)"
  shows "\<exists>d. q1 = p1 + d \<and> randomInsert rd2 s x p2 = Some (v, p2 + d)"
proof (cases "s = []")
  case True
  with assms(2) show ?thesis by (auto simp: randomInsert_def)
next
  case False
  with assms(2) obtain w q where r: "rand_Int rd1 (int (length s + 1)) p1 = Some (w, q)"
    by (auto simp: randomInsert_def split: option.splits)
  from rand_Int_shift[OF assms(1) r] obtain d where
    d: "q = p1 + d" "rand_Int rd2 (int (length s + 1)) p2 = Some (w, p2 + d)" by blast
  from assms(2) r d False show ?thesis
    by (auto simp: randomInsert_def split: prod.splits option.splits if_splits)
qed

lemma draw_loop_shift:
  assumes "draw_loop rd1 alphabet allowRepeat n i result p1 = Some y"
  shows "same_stream rd1 p1 rd2 p2 \<longrightarrow>
    (\<exists>d. snd y = p1 + d \<and> draw_loop rd2 alphabet allowRepeat n i result p2 = Some (fst y, p2 + d))"
  using assms
proof (induct arbitrary: p2 rule: draw_loop_induct)
  case (step f rd1 a rep n i res p1 y)
  show ?case
  proof
    assume ss: "same_stream rd1 p1 rd2 p2"
    show "\<exists>d. snd y = p1 + d \<and> draw_loop rd2 a rep n i res p2 = Some (fst y, p2 + d)"
    proof (cases "i < n")
      case False
      with step(2) show ?thesis by (subst draw_loop.simps) auto
    next
      case True
      with step(2) obtain ch eo q where el: "randomElement rd1 a p1 = Some ((ch, eo), q)"
        by (auto split: option.splits)
      from randomElement_shift[OF ss el] obtain d1 where
        d1: "q = p1 + d1" "randomElement rd2 a p2 = Some ((ch, eo), p2 + d1)" by blast
      note ss1 = same_stream_advance[OF ss, of d1]
      show ?thesis
      proof (cases eo)
        case (Some e)
        with step(2) True el d1 show ?thesis by (subst draw_loop.simps) auto
      next
        case None
        show ?thesis
        proof (cases "\<not> rep \<and> strings_Contains res ch")
          case retry: True
          with step(2) True el None have "f rd1 a rep n i res q = Some y" by simp
          from step(1)[OF this, of "p2 + d1"] ss1 d1 obtain d2 where
            d2: "snd y = p1 + d1 + d2"
              "draw_loop rd2 a rep n i res (p2 + d1) = Some (fst y, p2 + d1 + d2)"
            by auto
          have "draw_loop rd2 a rep n i res p2 = draw_loop rd2 a rep n i res (p2 + d1)"
            using True d1 None retry by (subst draw_loop.simps) simp
          with d2 show ?thesis by (auto intro: exI[of _ "d1 + d2"] simp: add.assoc)
        next
          case ins: False
          with step(2) True el None obtain r eo' q'
            where ri: "randomInsert rd1 res ch q = Some ((r, eo'), q')"
            by (auto split: option.splits)
          from randomInsert_shift[OF ss1, of res ch "(r, eo')" q'] ri d1 obtain d2 where
            d2: "q' = p1 + d1 + d2" "randomInsert rd2 res ch (p2 + d1) = Some ((r, eo'), p2 + d1 + d2)"
            by auto
          show ?thesis
          proof (cases eo')
            case (Some e)
            with step(2) True el None ins ri d1 d2 show ?thesis
              by (subst draw_loop.simps) (auto intro: exI[of _ "d1 + d2"] simp: add.assoc)
          next
            case ok: None
            with step(2) True el None ins ri have "f rd1 a rep n (i + 1) r q' = Some y" by auto
            from step(1)[OF this, of "p2 + d1 + d2"] same_stream_advance[OF ss1, of d2] d2
            obtain d3 where
              d3: "snd y = p1 + d1 + d2 + d3"
                "draw_loop rd2 a rep n (i + 1) r (p2 + d1 + d2) = Some (fst y, p2 + d1 + d2 + d3)"
              by auto
            have "draw_loop rd2 a rep n i res p2 = draw_loop rd2 a rep n (i + 1) r (p2 + d1 + d2)"
              using True d1 d2 None ok ins by (subst draw_loop.simps) auto
            with d3 show ?thesis by (auto intro: exI[of _ "d1 + d2 + d3"] simp: add.assoc)
          qed
        qed
      qed
    qed
  qed
qed

lemma Generate_shift:
  assumes alph: "lowerLetters g1 = lowerLetters g2" "upperLetters g1 = upperLetters g2"
      "digits g1 = digits g2" "symbols g1 = symbols g2"
    and ss: "same_stream (reader g1) p1 (reader g2) p2"
    and run: "Generate g1 p1 len nd ns up rep = Some (v, q1)"
  shows "\<exists>d. q1 = p1 + d \<and> Generate g2 p2 len nd ns up rep = Some (v, p2 + d)"
proof (cases "valid_request g1 len nd ns up rep")
  case False
  have l: "letters_of g1 up = letters_of g2 up" using alph by (cases up) (simp_all add: letters_of_def)
  have same: "validation_error g2 len nd ns up rep = validation_error g1 len nd ns up rep"
    using alph l by (simp add: validation_error_def)
  from False obtain e where e: "validation_error g1 len nd ns up rep = Some e"
    by (auto simp: validation_error_None[symmetric])
  from Generate_validation_error[OF e, of p1] run
    Generate_validation_error[of g2 len nd ns up rep e p2] e same
  show ?thesis by auto
next
  case v1: True
  have l: "letters_of g1 up = letters_of g2 up" using alph by (cases up) (simp_all add: letters_of_def)
  from v1 have v2: "valid_request g2 len nd ns up rep"
    using alph l by (simp add: valid_request_def)
  let ?c = "sint (len - nd - ns)"
  from run obtain r1 e1 q where
    l1: "draw_loop (reader g1) (letters_of g2 up) rep ?c 0 [] p1 = Some ((r1, e1), q)"
    unfolding Generate_valid[OF v1] l by (auto split: option.splits)
  from draw_loop_shift[OF l1, of "reader g2" p2] ss obtain d1 where
    d1: "q = p1 + d1" "draw_loop (reader g2) (letters_of g2 up) rep ?c 0 [] p2 = Some ((r1, e1), p2 + d1)"
    by auto
  note ss1 = same_stream_advance[OF ss, of d1]
  show ?thesis
  proof (cases e1)
    case (Some e)
    with run l1 d1 show ?thesis
      unfolding Generate_valid[OF v1] Generate_valid[OF v2] l by auto
  next
    case n1: None
    with run l1 obtain r2 e2 q' where
      l2: "draw_loop (reader g1) (digits g2) rep (sint nd) 0 r1 q = Some ((r2, e2), q')"
      unfolding Generate_valid[OF v1] l alph by (auto split: option.splits)
    from draw_loop_shift[OF l2, of "reader g2" "p2 + d1"] ss1 d1 obtain d2 where
      d2: "q' = p1 + d1 + d2"
        "draw_loop (reader g2) (digits g2) rep (sint nd) 0 r1 (p2 + d1) = Some ((r2, e2), p2 + d1 + d2)"
      by auto
    note ss2 = same_stream_advance[OF ss1, of d2]
    show ?thesis
    proof (cases e2)
      case (Some e)
      with run l1 l2 d1 d2 n1 show ?thesis
        unfolding Generate_valid[OF v1] Generate_valid[OF v2] l alph
        by (auto intro: exI[of _ "d1 + d2"] simp: add.assoc)
    next
      case n2: None
      with run l1 l2 n1 obtain r3 e3 q'' where
        l3: "draw_loop (reader g1) (symbols g2) rep (sint ns) 0 r2 q' = Some ((r3, e3), q'')"
        unfolding Generate_valid[OF v1] l alph by (auto split: option.splits)
      from draw_loop_shift[OF l3, of "reader g2" "p2 + d1 + d2"] ss2 d2 obtain d3 where
        d3: "q'' = p1 + d1 + d2 + d3"
          "draw_loop (reader g2) (symbols g2) rep (sint ns) 0 r2 (p2 + d1 + d2)
             = Some ((r3, e3), p2 + d1 + d2 + d3)"
        by auto
      from run l1 l2 l3 d1 d2 d3 n1 n2 show ?thesis
        unfolding Generate_valid[OF v1] Generate_valid[OF v2] l alph
        by (cases e3) (auto intro: exI[of _ "d1 + d2 + d3"] simp: add.assoc)
    qed
  qed
qed

section \<open>The claims\<close>

subsection \<open>C1: the length of the result\<close>

text \<open>
  C1, as the specification has it, fails. \<^verbatim>\<open>Generate(1, -1, 0, false, true)\<close> with the
  built-in alphabets, on the reader of the tests: \<^verbatim>\<open>numDigits + numSymbols <= length\<close>
  holds, the error is nil, and the string has two characters, not one.
\<close>

theorem Generate_negative_count_longer:
  "Generate (NewStatefulGenerator MockReader None) 0 1 (- 1) 0 False True = Some ((''bc'', None), 3) \<and>
   sint (- 1 :: 64 word) + sint (0 :: 64 word) \<le> sint (1 :: 64 word) \<and>
   int (length ''bc'') \<noteq> sint (1 :: 64 word)"
proof -
  have "Generate (NewStatefulGenerator MockReader None) 0 1 (- 1) 0 False True = Some ((''bc'', None), 3)"
    by code_simp
  then show ?thesis by simp
qed

text \<open>
  C1, amended. For a generator whose alphabets are ASCII, \<^verbatim>\<open>numDigits >= 0\<close>,
  \<^verbatim>\<open>numSymbols >= 0\<close> and \<^verbatim>\<open>numDigits + numSymbols <= length\<close>: a string that
  \<^verbatim>\<open>Generate\<close> returns with a nil error has exactly \<^verbatim>\<open>length\<close> characters; and with
  \<^verbatim>\<open>allowRepeat = true\<close>, no empty alphabet (as \<^verbatim>\<open>NewStatefulGenerator\<close> ensures) and a
  random source that answers every draw, \<^verbatim>\<open>Generate\<close> does return a nil error and such a
  string.
\<close>

theorem Generate_length:
  assumes "ascii_alphabets g"
    and "0 \<le> sint numDigits" and "0 \<le> sint numSymbols"
    and "sint numDigits + sint numSymbols \<le> sint len"
  shows "(Generate g p len numDigits numSymbols includeUpper allowRepeat = Some ((r, None), q)
            \<longrightarrow> int (length r) = sint len) \<and>
         (allowRepeat \<and> nonempty_alphabets g \<and> reliable (reader g) \<longrightarrow>
            (\<exists>r q. Generate g p len numDigits numSymbols includeUpper allowRepeat = Some ((r, None), q)
                \<and> int (length r) = sint len))"
proof -
  have "sint len < 2 ^ 63" using sint_lt[of len] by simp
  with assms have chars: "sint (len - numDigits - numSymbols) = sint len - sint numDigits - sint numSymbols"
    by (intro sint_diff3) simp_all
  have len: "int (length r) = sint len"
    if "Generate g p len numDigits numSymbols includeUpper allowRepeat = Some ((r, None), q)" for r q
    using Generate_result_length[OF that assms(1)] chars assms(2,3) by simp
  have "\<exists>r q. Generate g p len numDigits numSymbols includeUpper allowRepeat = Some ((r, None), q)"
    if "allowRepeat" "nonempty_alphabets g" "reliable (reader g)"
    using Generate_total[OF that(3,2), of len numDigits numSymbols p includeUpper] chars assms that(1)
    by simp
  with len show ?thesis by blast
qed

theorem Generate_length_witness:
  "\<exists>r q. Generate (NewStatefulGenerator zero_reader None) 0 8 2 2 True True = Some ((r, None), q)
      \<and> int (length r) = 8"
proof -
  let ?g = "NewStatefulGenerator zero_reader None"
  have rel: "reliable (reader ?g)" by (simp add: NewStatefulGenerator_def reliable_zero_reader)
  have "True \<and> nonempty_alphabets ?g \<and> reliable (reader ?g)"
    using rel by (simp add: NewStatefulGenerator_nonempty)
  with Generate_length[of ?g 2 2 8 0 True True, OF ascii_alphabets_default]
  show ?thesis by simp
qed

subsection \<open>C2: no character twice\<close>

text \<open>
  C2, at a failing input. The lowercase alphabet is the Go string of the two characters
  U+00E3 (a with tilde) and a, the three bytes C3 A3 61 in UTF-8, and the reader delivers
  the bytes 0, 2, 1, 0, 0. \<^verbatim>\<open>Generate(3, 0, 0, false, false)\<close> draws the byte C3 and
  converts it to the two-byte string C3 83 (the character U+00C3), draws the letter a and
  inserts it between these two bytes, and then draws the byte C3 again:
  \<^verbatim>\<open>strings.Contains\<close> no longer finds C3 83 in the result, so the same character is
  inserted a second time. The call returns a nil error and a string in which a character
  value occurs twice.
\<close>

theorem Generate_repeats_two_byte_character:
  "Generate
     (NewStatefulGenerator sys
        (Some \<lparr>in_LowerLetters = [CHR 0xC3, CHR 0xA3, CHR ''a''], in_UpperLetters = [],
               in_Digits = [], in_Symbols = [],
               in_Reader = Some (bytes_reader [0, 2, 1, 0, 0])\<rparr>))
     0 3 0 0 False False
     = Some (([CHR 0xC3, CHR 0x83, CHR 0xC3, CHR ''a'', CHR 0x83], None), 5) \<and>
   \<not> distinct [CHR 0xC3, CHR 0x83, CHR 0xC3, CHR ''a'', CHR 0x83]"
  by code_simp

text \<open>
  For alphabets of ASCII characters the property holds: a string returned with
  \<^verbatim>\<open>allowRepeat = false\<close> and a nil error has no character twice.
\<close>

lemma Generate_no_repeat_ascii:
  assumes "ascii_alphabets g"
    and "Generate g p len numDigits numSymbols includeUpper False = Some ((r, None), q)"
  shows "distinct r"
  using Generate_result_distinct[OF assms(2,1)] .

subsection \<open>C3: the policy\<close>

text \<open>
  C3: a string that \<^verbatim>\<open>GenerateWithPolicy\<close> returns with a nil error satisfies every
  requested flag: it has a character of a to z if \<^verbatim>\<open>needsLower\<close>, of A to Z if
  \<^verbatim>\<open>needsUpper\<close>, of 0 to 9 if \<^verbatim>\<open>needsDigit\<close>, and a character outside these three
  ranges if \<^verbatim>\<open>needsSymbol\<close>, whatever the symbols alphabet of the generator is.
\<close>

theorem GenerateWithPolicy_satisfies_policy:
  assumes "GenerateWithPolicy g p len numDigits numSymbols includeUpper allowRepeat
             needsLower needsUpper needsDigit needsSymbol = Some ((r, None), q)"
  shows "(needsLower \<longrightarrow> (\<exists>c \<in> set r. lower_class c)) \<and>
         (needsUpper \<longrightarrow> (\<exists>c \<in> set r. upper_class c)) \<and>
         (needsDigit \<longrightarrow> (\<exists>c \<in> set r. digit_class c)) \<and>
         (needsSymbol \<longrightarrow> (\<exists>c \<in> set r. \<not> lower_class c \<and> \<not> upper_class c \<and> \<not> digit_class c))"
  using GenerateWithPolicy_legal[OF assms]
  by (auto simp: isLegalPassword_def containsLower_def containsUpper_def containsDigit_def
      containsSymbol_def list_ex_iff split: if_splits)

theorem GenerateWithPolicy_satisfies_policy_witness:
  "GenerateWithPolicy (NewStatefulGenerator MockReader None) 0 6 1 1 True False True True True True
     = Some ((''z0C@AE'', None), 35) \<and>
   (\<exists>c \<in> set ''z0C@AE''. lower_class c) \<and>
   (\<exists>c \<in> set ''z0C@AE''. upper_class c) \<and>
   (\<exists>c \<in> set ''z0C@AE''. digit_class c) \<and>
   (\<exists>c \<in> set ''z0C@AE''. \<not> lower_class c \<and> \<not> upper_class c \<and> \<not> digit_class c)"
proof -
  have run: "GenerateWithPolicy (NewStatefulGenerator MockReader None) 0 6 1 1 True False
      True True True True = Some ((''z0C@AE'', None), 35)"
    by code_simp
  from GenerateWithPolicy_satisfies_policy[OF run] run show ?thesis by simp
qed

subsection \<open>C4: \<^verbatim>\<open>ErrExceedsTotalLength\<close>\<close>

text \<open>
  C4, at the input \<^verbatim>\<open>Generate(math.MinInt64, 1, 0, false, false)\<close> of a generator with the
  built-in alphabets: \<^verbatim>\<open>numDigits + numSymbols\<close> is greater than \<^verbatim>\<open>length\<close>, but
  \<^verbatim>\<open>length - numDigits - numSymbols\<close> wraps around to the largest \<^verbatim>\<open>int\<close>, so the first
  check passes and the call returns \<^verbatim>\<open>ErrLettersExceedsAvailable\<close>, not
  \<^verbatim>\<open>ErrExceedsTotalLength\<close>. Where the difference does not wrap around, the property
  holds (\<open>Generate_ErrExceedsTotalLength_iff\<close>).
\<close>

theorem Generate_wraps_around:
  "Generate (NewStatefulGenerator sys None) p (- 9223372036854775808) 1 0 False False =
     Some (('''', Some ErrLettersExceedsAvailable), p) \<and>
   sint (1 :: 64 word) + sint (0 :: 64 word) > sint (- 9223372036854775808 :: 64 word)"
  by (simp add: Generate_def Let_def word_sless_alt NewStatefulGenerator_def LowerLetters_def)

subsection \<open>C5: \<^verbatim>\<open>ErrDigitsExceedsAvailable\<close>\<close>

text \<open>
  C5: with \<^verbatim>\<open>allowRepeat = false\<close>, if \<^verbatim>\<open>numDigits + numSymbols <= length\<close> and
  \<^verbatim>\<open>length - numDigits - numSymbols\<close> is at most the size of the letter alphabet (a Go
  string, shorter than \<open>2^63\<close>), but \<^verbatim>\<open>numDigits\<close> exceeds the size of the digits alphabet,
  then \<^verbatim>\<open>Generate\<close> fails with \<^verbatim>\<open>ErrDigitsExceedsAvailable\<close>.
\<close>

theorem Generate_ErrDigitsExceedsAvailable:
  assumes "sint numDigits + sint numSymbols \<le> sint len"
    and "sint len - sint numDigits - sint numSymbols \<le> int (length (letters_of g includeUpper))"
    and "length (letters_of g includeUpper) < 2 ^ 63"
    and "int (length (digits g)) < sint numDigits"
  shows "Generate g p len numDigits numSymbols includeUpper False =
           Some (('''', Some ErrDigitsExceedsAvailable), p)"
proof -
  have "int (length (letters_of g includeUpper)) < 2 ^ 63"
    using assms(3) by (metis of_nat_less_iff of_nat_numeral of_nat_power)
  with assms(2) have "sint len - sint numDigits - sint numSymbols < 2 ^ 63"
    by linarith
  with assms(1) have "sint (len - numDigits - numSymbols) = sint len - sint numDigits - sint numSymbols"
    by (intro sint_diff3) simp_all
  with assms show ?thesis
    by (simp add: Generate_def Let_def word_sless_alt letters_of_def)
qed

text \<open>
  The instance of the specification: \<^verbatim>\<open>Generate(52, 11, 0, true, false)\<close> with the built-in
  alphabets returns \<^verbatim>\<open>ErrDigitsExceedsAvailable\<close>.
\<close>

theorem Generate_ErrDigitsExceedsAvailable_witness:
  "Generate (NewStatefulGenerator MockReader None) 0 52 11 0 True False =
     Some (('''', Some ErrDigitsExceedsAvailable), 0)"
proof -
  let ?g = "NewStatefulGenerator MockReader None"
  have 1: "sint (11 :: 64 word) + sint (0 :: 64 word) \<le> sint (52 :: 64 word)" by simp
  have 2: "sint (52 :: 64 word) - sint (11 :: 64 word) - sint (0 :: 64 word)
             \<le> int (length (letters_of ?g True))"
    by (simp add: letters_of_def NewStatefulGenerator_def LowerLetters_def UpperLetters_def)
  have 3: "length (letters_of ?g True) < 2 ^ 63"
    by (simp add: letters_of_def NewStatefulGenerator_def LowerLetters_def UpperLetters_def)
  have 4: "int (length (digits ?g)) < sint (11 :: 64 word)"
    by (simp add: NewStatefulGenerator_def Digits_def)
  show ?thesis by (rule Generate_ErrDigitsExceedsAvailable[OF 1 2 3 4])
qed

subsection \<open>C6: the end of the retry loops\<close>

text \<open>
  C6, at a failing input. The generator is built with the lowercase alphabet \<^verbatim>\<open>"a"\<close> and
  the digits alphabet \<^verbatim>\<open>"a"\<close>. \<^verbatim>\<open>Generate(2, 1, 0, false, false)\<close> passes the four checks
  (one letter of one, one digit of one), the letters loop puts the a into the result, and
  every draw of the digits loop is the a that is already there: the loop repeats the
  iteration for ever, whatever the random source is, and the call never returns.
\<close>

theorem Generate_never_returns:
  "Generate
     (NewStatefulGenerator sys
        (Some \<lparr>in_LowerLetters = ''a'', in_UpperLetters = [], in_Digits = ''a'',
               in_Symbols = [], in_Reader = rdo\<rparr>))
     p 2 1 0 False False = None"
proof -
  let ?g = "NewStatefulGenerator sys
        (Some \<lparr>in_LowerLetters = ''a'', in_UpperLetters = [], in_Digits = ''a'',
               in_Symbols = [], in_Reader = rdo\<rparr>)"
  have g: "lowerLetters ?g = ''a''" "digits ?g = ''a''" "letters_of ?g False = ''a''"
    by (simp_all add: NewStatefulGenerator_def letters_of_def)
  have v: "valid_request ?g 2 1 0 False False"
    by (simp add: valid_request_def g)
  have el: "randomElement rd ''a'' q = Some ((''a'', None), q)" for rd q
    by (simp add: randomElement_def rand_Int_def bitLen.simps string_of_byte_def)
  have l1: "draw_loop (reader ?g) ''a'' False 1 0 [] p = Some ((''a'', None), p)"
    by (subst draw_loop.simps, simp add: el randomInsert_def, subst draw_loop.simps, simp)
  have l2: "draw_loop (reader ?g) ''a'' False 1 0 ''a'' p = None"
  proof (cases "draw_loop (reader ?g) ''a'' False 1 0 ''a'' p")
    case (Some y)
    from draw_loop_stuck[OF this] show ?thesis by simp
  qed simp
  have s: "sint (2 - 1 - 0 :: 64 word) = 1" "sint (1 :: 64 word) = 1" by simp_all
  show ?thesis unfolding Generate_valid[OF v] g s using l1 l2 by simp
qed

subsection \<open>C7: the built-in alphabets\<close>

text \<open>C7, as the specification has it, fails: the symbols alphabet does not have 32 characters.\<close>

theorem Symbols_length_not_32: "length Symbols \<noteq> 32"
  by (simp add: Symbols_def)

text \<open>
  C7, amended: the lowercase alphabet is the 26 characters a to z, the uppercase alphabet
  the 26 characters A to Z, the digits alphabet the 10 characters 0 to 9, and the symbols
  alphabet has exactly 30 characters, all different.
\<close>

theorem default_alphabets:
  "LowerLetters = map char_of [97 ..< 123 :: nat] \<and>
   UpperLetters = map char_of [65 ..< 91 :: nat] \<and>
   Digits = map char_of [48 ..< 58 :: nat] \<and>
   length LowerLetters = 26 \<and> length UpperLetters = 26 \<and> length Digits = 10 \<and>
   length Symbols = 30 \<and> distinct Symbols"
  by code_simp

subsection \<open>C8: the run is a function of the bytes\<close>

text \<open>
  C8: two generators with the same alphabets, whose readers deliver the same bytes from
  the positions where they stand, give the same outcome for the same arguments of
  \<^verbatim>\<open>Generate\<close>: the same string and error and the same number of bytes consumed, or no
  return from either.
\<close>

theorem Generate_deterministic:
  assumes "lowerLetters g1 = lowerLetters g2" and "upperLetters g1 = upperLetters g2"
    and "digits g1 = digits g2" and "symbols g1 = symbols g2"
    and "\<forall>k. reader g1 (p1 + k) = reader g2 (p2 + k)"
  shows "outcome p1 (Generate g1 p1 len numDigits numSymbols includeUpper allowRepeat) =
         outcome p2 (Generate g2 p2 len numDigits numSymbols includeUpper allowRepeat)"
proof -
  have ss: "same_stream (reader g1) p1 (reader g2) p2" using assms(5) by (simp add: same_stream_def)
  let ?G1 = "Generate g1 p1 len numDigits numSymbols includeUpper allowRepeat"
  let ?G2 = "Generate g2 p2 len numDigits numSymbols includeUpper allowRepeat"
  show ?thesis
  proof (cases ?G1)
    case (Some y)
    obtain v q1 where y: "y = (v, q1)" by (cases y)
    from Generate_shift[OF assms(1-4) ss, of len numDigits numSymbols includeUpper allowRepeat v q1]
      Some y
    show ?thesis by (auto simp: outcome_def)
  next
    case None
    have "?G2 = None"
    proof (cases ?G2)
      case (Some y)
      obtain v q2 where y: "y = (v, q2)" by (cases y)
      from Generate_shift[OF assms(1-4)[symmetric] same_stream_sym[OF ss],
          of len numDigits numSymbols includeUpper allowRepeat v q2] Some y None
      show ?thesis by auto
    qed simp
    with None show ?thesis by (simp add: outcome_def)
  qed
qed

theorem Generate_deterministic_witness:
  "outcome 1 (Generate (NewStatefulGenerator (\<lambda>k. Some (of_nat k)) None) 1 8 2 2 True False)
     = Some ((''b08|e]cg'', None), 21)"
proof -
  let ?g1 = "NewStatefulGenerator MockReader None"
  let ?g2 = "NewStatefulGenerator (\<lambda>k. Some (of_nat k)) None"
  have a: "lowerLetters ?g1 = lowerLetters ?g2" "upperLetters ?g1 = upperLetters ?g2"
    "digits ?g1 = digits ?g2" "symbols ?g1 = symbols ?g2"
    by (simp_all add: NewStatefulGenerator_def)
  have s: "\<forall>k. reader ?g1 (0 + k) = reader ?g2 (1 + k)"
    by (simp add: NewStatefulGenerator_def MockReader_def)
  have run: "Generate ?g1 0 8 2 2 True False = Some ((''b08|e]cg'', None), 21)"
    by code_simp
  from Generate_deterministic[OF a s, of 8 2 2 True False] run
  show ?thesis by (simp add: outcome_def)
qed

subsection \<open>C9: the validation reads nothing\<close>

text \<open>
  C9: whenever \<^verbatim>\<open>Generate\<close> returns \<^verbatim>\<open>ErrExceedsTotalLength\<close>,
  \<^verbatim>\<open>ErrLettersExceedsAvailable\<close>, \<^verbatim>\<open>ErrDigitsExceedsAvailable\<close> or
  \<^verbatim>\<open>ErrSymbolsExceedsAvailable\<close>, the reader is where it was before the call (no byte
  has been consumed), and the returned string is empty.
\<close>

theorem Generate_precondition_errors_read_nothing:
  assumes "Generate g p len numDigits numSymbols includeUpper allowRepeat = Some ((r, Some e), q)"
    and "e = ErrExceedsTotalLength \<or> e = ErrLettersExceedsAvailable \<or>
         e = ErrDigitsExceedsAvailable \<or> e = ErrSymbolsExceedsAvailable"
  shows "q = p \<and> r = ''''"
  using Generate_error[OF assms(1)] assms(2) by (auto simp: precondition_error_def)

theorem Generate_precondition_errors_read_nothing_witness:
  "Generate (NewStatefulGenerator MockReader None) 7 52 0 31 True False =
     Some (('''', Some ErrSymbolsExceedsAvailable), 7)"
proof -
  have run: "Generate (NewStatefulGenerator MockReader None) 7 52 0 31 True False =
     Some (('''', Some ErrSymbolsExceedsAvailable), 7)" by code_simp
  from Generate_precondition_errors_read_nothing[OF run] run show ?thesis by simp
qed

subsection \<open>C10: negative counts\<close>

text \<open>
  C10, as it is stated, fails. \<^verbatim>\<open>Generate(5, -1, 2, false, true)\<close> with the built-in
  alphabets, on the reader of the tests, returns a nil error and six characters (five
  letters and two symbols less one), while \<^verbatim>\<open>length - numDigits - numSymbols\<close> is four.
\<close>

theorem Generate_negative_count_formula_fails:
  "Generate (NewStatefulGenerator MockReader None) 0 5 (- 1) 2 False True
     = Some ((''b*e)cg'', None), 11) \<and>
   sint (- 1 :: 64 word) < 0 \<and>
   sint (- 1 :: 64 word) + sint (2 :: 64 word) \<le> sint (5 :: 64 word) \<and>
   int (length ''b*e)cg'') \<noteq> sint (5 :: 64 word) - sint (- 1 :: 64 word) - sint (2 :: 64 word)"
proof -
  have "Generate (NewStatefulGenerator MockReader None) 0 5 (- 1) 2 False True
     = Some ((''b*e)cg'', None), 11)"
    by code_simp
  then show ?thesis by simp
qed

text \<open>
  C10, amended. Negative counts are not rejected: for an ASCII generator, \<^verbatim>\<open>numDigits < 0\<close>
  or \<^verbatim>\<open>numSymbols < 0\<close>, \<^verbatim>\<open>allowRepeat = true\<close> and \<^verbatim>\<open>length - numDigits - numSymbols\<close>
  between 0 and the largest \<^verbatim>\<open>int\<close>, a string returned with a nil error has
  \<^verbatim>\<open>length - min(0, numDigits) - min(0, numSymbols)\<close> characters (the letters, and the
  digits and symbols of a count that is positive), which is more than \<^verbatim>\<open>length\<close>; with no
  empty alphabet and a random source that answers every draw the call does return a nil
  error; and an error that the call returns is never one of the validation.
\<close>

theorem Generate_negative_counts:
  assumes "ascii_alphabets g"
    and "sint numDigits < 0 \<or> sint numSymbols < 0"
    and "0 \<le> sint len - sint numDigits - sint numSymbols"
    and "sint len - sint numDigits - sint numSymbols < 2 ^ 63"
  shows "(Generate g p len numDigits numSymbols includeUpper True = Some ((r, None), q) \<longrightarrow>
            int (length r) = sint len - min 0 (sint numDigits) - min 0 (sint numSymbols) \<and>
            sint len < int (length r)) \<and>
         (nonempty_alphabets g \<and> reliable (reader g) \<longrightarrow>
            (\<exists>r q. Generate g p len numDigits numSymbols includeUpper True = Some ((r, None), q))) \<and>
         (Generate g p len numDigits numSymbols includeUpper True = Some ((r, Some e), q) \<longrightarrow>
            e = ErrRead \<or> e = Panic)"
proof -
  have chars: "sint (len - numDigits - numSymbols) = sint len - sint numDigits - sint numSymbols"
    using assms(3,4) by (intro sint_diff3) simp_all
  have v: "valid_request g len numDigits numSymbols includeUpper True"
    using chars assms(3) by (simp add: valid_request_def)
  have 1: "int (length r) = sint len - min 0 (sint numDigits) - min 0 (sint numSymbols) \<and>
            sint len < int (length r)"
    if "Generate g p len numDigits numSymbols includeUpper True = Some ((r, None), q)"
    using Generate_result_length[OF that assms(1)] chars assms(2) by auto
  have 2: "\<exists>r q. Generate g p len numDigits numSymbols includeUpper True = Some ((r, None), q)"
    if "nonempty_alphabets g \<and> reliable (reader g)"
    using Generate_total[of g len numDigits numSymbols p includeUpper] that chars assms(3) by simp
  have 3: "e = ErrRead \<or> e = Panic"
    if "Generate g p len numDigits numSymbols includeUpper True = Some ((r, Some e), q)"
    using Generate_error[OF that] v by (cases e) (auto simp: precondition_error_def)
  from 1 2 3 show ?thesis by blast
qed

theorem Generate_negative_counts_witness:
  "\<exists>r q. Generate (NewStatefulGenerator zero_reader None) 0 5 (- 1) 2 False True = Some ((r, None), q)
     \<and> int (length r) = 6"
proof -
  let ?g = "NewStatefulGenerator zero_reader None"
  have rel: "nonempty_alphabets ?g \<and> reliable (reader ?g)"
    by (simp add: NewStatefulGenerator_nonempty) (simp add: NewStatefulGenerator_def reliable_zero_reader)
  have h2: "sint (- 1 :: 64 word) < 0 \<or> sint (2 :: 64 word) < 0" by simp
  have h3: "0 \<le> sint (5 :: 64 word) - sint (- 1 :: 64 word) - sint (2 :: 64 word)" by simp
  have h4: "sint (5 :: 64 word) - sint (- 1 :: 64 word) - sint (2 :: 64 word) < 2 ^ 63" by simp
  note t = Generate_negative_counts[of ?g "- 1" 2 5 0 False, OF ascii_alphabets_default h2 h3 h4]
  from t rel obtain r q where
    run: "Generate ?g 0 5 (- 1) 2 False True = Some ((r, None), q)" by blast
  with Generate_negative_counts[of ?g "- 1" 2 5 0 False r q, OF ascii_alphabets_default h2 h3 h4]
  have "int (length r) = 6" by simp
  with run show ?thesis by blast
qed

end
